theory Spec2Isabelle
  imports Main "HOL-Library.AList" "HOL-Library.Sublist"
begin

section \<open>Data model of the keybinding resolver\<close>

text \<open>
  The development follows \<^verbatim>\<open>src/vs/platform/keybinding/common/keybindingResolver.ts\<close>.

  A \<^verbatim>\<open>KeyboundCommand\<close> is a command id with optional arguments. The resolver never looks
  at the arguments; they are carried as an opaque optional text.
\<close>

record KeyboundCommand =
  command :: string
  args :: "string option"

text \<open>
  \<^verbatim>\<open>ContextKeyExprType\<close>: the resolver only distinguishes the constants \<^verbatim>\<open>False\<close> and
  \<^verbatim>\<open>True\<close> from every other kind of expression.
\<close>

datatype ContextKeyExprType = ExprFalse | ExprTrue | ExprOther

text \<open>
  The context-key module is imported by the resolver and is not part of it. Its
  operations are parameters of the model: \<open>exprType\<close> reads the \<^verbatim>\<open>type\<close> field of an
  expression, \<open>evaluate\<close> is \<^verbatim>\<open>expr.evaluate(context)\<close>, \<open>implies\<close> and
  \<open>expressionsAreEqualWithConstantSubstitution\<close> are the imported functions of these names.
  \<open>'e\<close> is the type of expressions and \<open>'c\<close> the type of contexts.
\<close>

record ('e, 'c) ContextKeyOps =
  exprType :: "'e \<Rightarrow> ContextKeyExprType"
  evaluate :: "'e \<Rightarrow> 'c \<Rightarrow> bool"
  implies :: "'e \<Rightarrow> 'e \<Rightarrow> bool"
  expressionsAreEqualWithConstantSubstitution :: "'e \<Rightarrow> 'e \<Rightarrow> bool"

text \<open>
  \<^verbatim>\<open>ResolvedKeybindingItem\<close>, with the fields the resolver reads. \<open>chords\<close> is a list of
  chord strings, \<open>when_expr\<close> is the optional \<^verbatim>\<open>when\<close> expression (\<open>None\<close> is
  \<^verbatim>\<open>undefined\<close>). The extension id and the built-in flag are only read when a log line is
  printed and are left out, as is the log itself.
\<close>

record 'e ResolvedKeybindingItem =
  chords :: "string list"
  when_expr :: "'e option"
  commands :: "KeyboundCommand list"
  isDefault :: bool
  bubble :: bool

text \<open>
  Items are objects: arrays hold references to them and \<^verbatim>\<open>_removeFromLookupMap\<close> compares
  references with \<^verbatim>\<open>===\<close>. A rule is therefore a reference, and a store \<open>h\<close> maps each
  reference to the immutable item it points to. The same reference may occur several times in
  a list, and two references may point to items with equal fields.
\<close>

type_synonym ref = nat

type_synonym 'e store = "ref \<Rightarrow> 'e ResolvedKeybindingItem"

text \<open>
  A JavaScript \<^verbatim>\<open>Map\<close> with string keys is an association list in insertion order:
  \<^verbatim>\<open>get\<close> is \<open>map_of\<close>, \<^verbatim>\<open>has\<close> is \<open>map_of m k \<noteq> None\<close>, \<^verbatim>\<open>set\<close> is \<open>AList.update\<close>
  (which replaces the value of a present key in place and appends an absent key), and
  \<^verbatim>\<open>size === 0\<close> is \<open>m = []\<close>.
\<close>

type_synonym 'v JSMap = "(string \<times> 'v) list"

subsection \<open>JavaScript string and array reads\<close>

text \<open>\<^verbatim>\<open>s.charAt(i)\<close>: the one-character string at \<open>i\<close>, the empty string out of range.\<close>

definition charAt :: "string \<Rightarrow> nat \<Rightarrow> string" where
  "charAt s i = (if i < length s then [s ! i] else [])"

text \<open>\<^verbatim>\<open>s.substring(1)\<close>.\<close>

definition substring1 :: "string \<Rightarrow> string" where
  "substring1 s = drop 1 s"

text \<open>\<^verbatim>\<open>chords[i]\<close>: \<open>None\<close> is \<^verbatim>\<open>undefined\<close>, the value of an out-of-range read.\<close>

definition chordAt :: "string list \<Rightarrow> nat \<Rightarrow> string option" where
  "chordAt cs i = (if i < length cs then Some (cs ! i) else None)"

text \<open>Truthiness of a \<^verbatim>\<open>string | undefined\<close> value: defined and not the empty string.\<close>

definition truthy :: "string option \<Rightarrow> bool" where
  "truthy v = (case v of None \<Rightarrow> False | Some s \<Rightarrow> s \<noteq> [])"

section \<open>The removal pass\<close>

text \<open>
  The test of both passes of \<^verbatim>\<open>handleRemovals\<close> for a removal directive:
  \<^verbatim>\<open>rule.commands.length === 1 && rule.commands[0].command.charAt(0) === '-'\<close>.
\<close>

definition isRemovalRule :: "'e ResolvedKeybindingItem \<Rightarrow> bool" where
  "isRemovalRule rule =
     (length (commands rule) = 1 \<and> charAt (command (commands rule ! 0)) 0 = ''-'')"

text \<open>\<^verbatim>\<open>_isTargetedForRemoval\<close>.\<close>

definition isTargetedForRemoval ::
  "('e, 'c) ContextKeyOps \<Rightarrow> 'e ResolvedKeybindingItem \<Rightarrow> string option \<Rightarrow> string option
     \<Rightarrow> 'e option \<Rightarrow> bool" where
  "isTargetedForRemoval ops defaultKb keypressFirstPart keypressChordPart when =
     (if truthy keypressFirstPart \<and> chordAt (chords defaultKb) 0 \<noteq> keypressFirstPart
      then False
      else if truthy keypressChordPart \<and> chordAt (chords defaultKb) 1 \<noteq> keypressChordPart
      then False
      else (case when of
              None \<Rightarrow> True
            | Some w \<Rightarrow>
                if exprType ops w \<noteq> ExprTrue
                then (case when_expr defaultKb of
                        None \<Rightarrow> False
                      | Some dw \<Rightarrow>
                          if \<not> expressionsAreEqualWithConstantSubstitution ops w dw
                          then False else True)
                else True))"

text \<open>
  First pass of \<^verbatim>\<open>handleRemovals\<close>: the map from a command id to the removal directives
  that name it, built rule by rule.
\<close>

definition addRemoval :: "'e store \<Rightarrow> ref \<Rightarrow> ref list JSMap \<Rightarrow> ref list JSMap" where
  "addRemoval h rule removals =
     (if isRemovalRule (h rule)
      then (let cmd = substring1 (command (commands (h rule) ! 0))
            in case map_of removals cmd of
                 None \<Rightarrow> AList.update cmd [rule] removals
               | Some rs \<Rightarrow> AList.update cmd (rs @ [rule]) removals)
      else removals)"

definition collectRemovals :: "'e store \<Rightarrow> ref list \<Rightarrow> ref list JSMap" where
  "collectRemovals h rules = fold (addRemoval h) rules []"

text \<open>
  The inner loop of the second pass: is some directive of \<open>commandRemovals\<close> targeted at
  \<open>rule\<close>? The loop stops at the first one that is.
\<close>

fun isRemoved :: "('e, 'c) ContextKeyOps \<Rightarrow> 'e store \<Rightarrow> ref \<Rightarrow> ref list \<Rightarrow> bool" where
  "isRemoved ops h rule [] = False"
| "isRemoved ops h rule (commandRemoval # rest) =
     (let keypressFirstChord = chordAt (chords (h commandRemoval)) 0;
          keypressSecondChord = chordAt (chords (h commandRemoval)) 1;
          when = when_expr (h commandRemoval)
      in if isTargetedForRemoval ops (h rule) keypressFirstChord keypressSecondChord when
         then True
         else isRemoved ops h rule rest)"

text \<open>The body of the second pass: is \<open>rule\<close> pushed to the result?\<close>

definition keepRule ::
  "('e, 'c) ContextKeyOps \<Rightarrow> 'e store \<Rightarrow> ref list JSMap \<Rightarrow> ref \<Rightarrow> bool" where
  "keepRule ops h removals rule =
     (if length (commands (h rule)) = 0 \<or> length (commands (h rule)) > 1
         \<or> length (command (commands (h rule) ! 0)) = 0
      then True
      else if charAt (command (commands (h rule) ! 0)) 0 = ''-''
      then False
      else (case map_of removals (command (commands (h rule) ! 0)) of
              None \<Rightarrow> True
            | Some commandRemovals \<Rightarrow>
                if \<not> isDefault (h rule) then True
                else \<not> isRemoved ops h rule commandRemovals))"

text \<open>\<^verbatim>\<open>handleRemovals\<close>: both passes, with the early return when there is no removal.\<close>

definition handleRemovals ::
  "('e, 'c) ContextKeyOps \<Rightarrow> 'e store \<Rightarrow> ref list \<Rightarrow> ref list" where
  "handleRemovals ops h rules =
     (let removals = collectRemovals h rules
      in if removals = [] then rules
         else filter (keepRule ops h removals) rules)"

section \<open>The resolver\<close>

text \<open>
  The fields of a \<^verbatim>\<open>KeybindingResolver\<close>. The chord index \<^verbatim>\<open>_map\<close> is named \<open>chordMap\<close>
  here; the other fields keep their names without the underscore.
\<close>

record Resolver =
  defaultKeybindings :: "ref list"
  keybindings :: "ref list"
  defaultBoundCommands :: "bool JSMap"
  chordMap :: "ref list JSMap"
  lookupMap :: "ref list JSMap"

text \<open>\<^verbatim>\<open>IResolveResult\<close>; a \<^verbatim>\<open>null\<close> result of \<^verbatim>\<open>resolve\<close> is \<open>None\<close>.\<close>

record IResolveResult =
  enterMultiChord :: bool
  leaveMultiChord :: bool
  commands_r :: "KeyboundCommand list"
  bubble_r :: bool

text \<open>
  The comparison of \<^verbatim>\<open>_addKeyPress\<close>,
  \<^verbatim>\<open>arrays.equals(conflict.commands, item.commands, (a, b) => a.command === b.command)\<close>:
  the same length and the same command id at each position.
\<close>

definition commandsEqual :: "KeyboundCommand list \<Rightarrow> KeyboundCommand list \<Rightarrow> bool" where
  "commandsEqual one other = list_all2 (\<lambda>a b. command a = command b) one other"

text \<open>\<^verbatim>\<open>whenIsEntirelyIncluded\<close>.\<close>

definition whenIsEntirelyIncluded ::
  "('e, 'c) ContextKeyOps \<Rightarrow> 'e option \<Rightarrow> 'e option \<Rightarrow> bool" where
  "whenIsEntirelyIncluded ops a b =
     (case b of
        None \<Rightarrow> True
      | Some b' \<Rightarrow>
          if exprType ops b' = ExprTrue then True
          else (case a of
                  None \<Rightarrow> False
                | Some a' \<Rightarrow>
                    if exprType ops a' = ExprTrue then False
                    else implies ops a' b'))"

text \<open>\<^verbatim>\<open>_addToLookupMap\<close>.\<close>

definition addToLookupMap :: "'e store \<Rightarrow> ref \<Rightarrow> ref list JSMap \<Rightarrow> ref list JSMap" where
  "addToLookupMap h item lm =
     (if length (commands (h item)) \<noteq> 1 then lm
      else (let cmd = command (commands (h item) ! 0)
            in case map_of lm cmd of
                 None \<Rightarrow> AList.update cmd [item] lm
               | Some arr \<Rightarrow> AList.update cmd (arr @ [item]) lm))"

text \<open>
  \<^verbatim>\<open>_removeFromLookupMap\<close>: the first entry of the command's array that is the very same
  object is spliced out; \<open>remove1\<close> on references does that, and changes nothing when the
  reference is not there.
\<close>

definition removeFromLookupMap :: "'e store \<Rightarrow> ref \<Rightarrow> ref list JSMap \<Rightarrow> ref list JSMap" where
  "removeFromLookupMap h item lm =
     (if length (commands (h item)) \<noteq> 1 then lm
      else (let cmd = command (commands (h item) ! 0)
            in case map_of lm cmd of
                 None \<Rightarrow> lm
               | Some arr \<Rightarrow> AList.update cmd (remove1 item arr) lm))"

text \<open>
  The loop of \<^verbatim>\<open>_addKeyPress\<close> over the earlier rules of the same first chord, from the
  last index down to 0. The third argument is \<open>i + 1\<close>; the loop only changes the lookup map.
\<close>

fun conflictLoop ::
  "('e, 'c) ContextKeyOps \<Rightarrow> 'e store \<Rightarrow> ref \<Rightarrow> ref list \<Rightarrow> nat \<Rightarrow> ref list JSMap
     \<Rightarrow> ref list JSMap" where
  "conflictLoop ops h item conflicts 0 lm = lm"
| "conflictLoop ops h item conflicts (Suc i) lm =
     (let conflict = conflicts ! i
      in if commandsEqual (commands (h conflict)) (commands (h item))
         then conflictLoop ops h item conflicts i lm
         else (let conflictHasMultipleChords = (length (chords (h conflict)) > 1);
                   itemHasMultipleChords = (length (chords (h item)) > 1)
               in if conflictHasMultipleChords \<and> itemHasMultipleChords
                     \<and> chordAt (chords (h conflict)) 1 \<noteq> chordAt (chords (h item)) 1
                  then conflictLoop ops h item conflicts i lm
                  else if whenIsEntirelyIncluded ops (when_expr (h conflict)) (when_expr (h item))
                  then conflictLoop ops h item conflicts i (removeFromLookupMap h conflict lm)
                  else conflictLoop ops h item conflicts i lm))"

text \<open>\<^verbatim>\<open>_addKeyPress\<close>.\<close>

definition addKeyPress ::
  "('e, 'c) ContextKeyOps \<Rightarrow> 'e store \<Rightarrow> string \<Rightarrow> ref \<Rightarrow> Resolver \<Rightarrow> Resolver" where
  "addKeyPress ops h keypress item st =
     (case map_of (chordMap st) keypress of
        None \<Rightarrow>
          st\<lparr>chordMap := AList.update keypress [item] (chordMap st),
             lookupMap := addToLookupMap h item (lookupMap st)\<rparr>
      | Some conflicts \<Rightarrow>
          (let lm = conflictLoop ops h item conflicts (length conflicts) (lookupMap st)
           in st\<lparr>chordMap := AList.update keypress (conflicts @ [item]) (chordMap st),
                 lookupMap := addToLookupMap h item lm\<rparr>))"

text \<open>
  The constructor. First the default bound commands: every command of every default
  keybinding that is a non-empty string not starting with \<^verbatim>\<open>-\<close>.
\<close>

definition addDefaultBound :: "KeyboundCommand \<Rightarrow> bool JSMap \<Rightarrow> bool JSMap" where
  "addDefaultBound kc m =
     (if command kc \<noteq> [] \<and> charAt (command kc) 0 \<noteq> ''-''
      then AList.update (command kc) True m else m)"

definition collectDefaultBound :: "'e store \<Rightarrow> ref list \<Rightarrow> bool JSMap" where
  "collectDefaultBound h defaultKbs =
     fold (\<lambda>defaultKeybinding. fold addDefaultBound (commands (h defaultKeybinding)))
       defaultKbs []"

text \<open>The body of the constructor's loop over the merged rules.\<close>

definition indexRule :: "('e, 'c) ContextKeyOps \<Rightarrow> 'e store \<Rightarrow> ref \<Rightarrow> Resolver \<Rightarrow> Resolver" where
  "indexRule ops h k st =
     (if length (chords (h k)) = 0 then st
      else if (case when_expr (h k) of None \<Rightarrow> False | Some w \<Rightarrow> exprType ops w = ExprFalse)
      then st
      else addKeyPress ops h (chords (h k) ! 0) k st)"

definition KeybindingResolver ::
  "('e, 'c) ContextKeyOps \<Rightarrow> 'e store \<Rightarrow> ref list \<Rightarrow> ref list \<Rightarrow> Resolver" where
  "KeybindingResolver ops h defaultKbs overrides =
     (let kbs = handleRemovals ops h (([] @ defaultKbs) @ overrides)
      in fold (indexRule ops h) kbs
           \<lparr>defaultKeybindings = defaultKbs,
            keybindings = kbs,
            defaultBoundCommands = collectDefaultBound h defaultKbs,
            chordMap = [],
            lookupMap = []\<rparr>)"

text \<open>\<^verbatim>\<open>getDefaultBoundCommands\<close> returns the map itself.\<close>

definition getDefaultBoundCommands :: "Resolver \<Rightarrow> bool JSMap" where
  "getDefaultBoundCommands st = defaultBoundCommands st"

text \<open>\<^verbatim>\<open>lookupKeybindings\<close>: the command's array, last entry first.\<close>

definition lookupKeybindings :: "Resolver \<Rightarrow> string \<Rightarrow> ref list" where
  "lookupKeybindings st commandId =
     (case map_of (lookupMap st) commandId of
        None \<Rightarrow> []
      | Some items \<Rightarrow> if length items = 0 then [] else rev items)"

text \<open>
  The scan of \<^verbatim>\<open>lookupPrimaryKeybinding\<close> and of \<^verbatim>\<open>_findCommand\<close>: from the last index
  down to 0, the first item that passes the test. The third argument is \<open>i + 1\<close>.
\<close>

fun scanDown :: "(ref \<Rightarrow> bool) \<Rightarrow> ref list \<Rightarrow> nat \<Rightarrow> ref option" where
  "scanDown ok items 0 = None"
| "scanDown ok items (Suc i) =
     (let item = items ! i in if ok item then Some item else scanDown ok items i)"

text \<open>
  \<^verbatim>\<open>lookupPrimaryKeybinding\<close>. The context is an \<^verbatim>\<open>IContextKeyService\<close>, of which only
  \<^verbatim>\<open>contextMatchesRules\<close> is called; that method is the parameter \<open>contextMatchesRules\<close>.
\<close>

definition lookupPrimaryKeybinding ::
  "'e store \<Rightarrow> Resolver \<Rightarrow> string \<Rightarrow> ('e option \<Rightarrow> bool) \<Rightarrow> ref option" where
  "lookupPrimaryKeybinding h st commandId contextMatchesRules =
     (case map_of (lookupMap st) commandId of
        None \<Rightarrow> None
      | Some items \<Rightarrow>
          if length items = 0 then None
          else if length items = 1 then Some (items ! 0)
          else (case scanDown (\<lambda>item. contextMatchesRules (when_expr (h item))) items
                       (length items) of
                  Some item \<Rightarrow> Some item
                | None \<Rightarrow> Some (items ! (length items - 1))))"

text \<open>The static \<^verbatim>\<open>_contextMatchesRules\<close>.\<close>

definition contextMatchesRules :: "('e, 'c) ContextKeyOps \<Rightarrow> 'c \<Rightarrow> 'e option \<Rightarrow> bool" where
  "contextMatchesRules ops context rules =
     (case rules of None \<Rightarrow> True | Some e \<Rightarrow> evaluate ops e context)"

text \<open>\<^verbatim>\<open>_findCommand\<close>.\<close>

definition findCommand ::
  "('e, 'c) ContextKeyOps \<Rightarrow> 'e store \<Rightarrow> 'c \<Rightarrow> ref list \<Rightarrow> ref option" where
  "findCommand ops h context matches =
     scanDown (\<lambda>k. contextMatchesRules ops context (when_expr (h k))) matches (length matches)"

text \<open>
  The candidates of \<^verbatim>\<open>resolve\<close> (its local \<^verbatim>\<open>lookupMap\<close>): in a chord, the rules of
  \<open>currentChord\<close> whose second chord is the keypress; otherwise the rules of the keypress.
  \<open>None\<close> is the early \<^verbatim>\<open>return null\<close> for a key without entry.
\<close>

definition resolveCandidates :: "'e store \<Rightarrow> Resolver \<Rightarrow> string option \<Rightarrow> string \<Rightarrow> ref list option" where
  "resolveCandidates h st currentChord keypress =
     (case currentChord of
        Some cc \<Rightarrow>
          (case map_of (chordMap st) cc of
             None \<Rightarrow> None
           | Some candidates \<Rightarrow>
               Some (filter (\<lambda>candidate. chordAt (chords (h candidate)) 1 = Some keypress)
                       candidates))
      | None \<Rightarrow> map_of (chordMap st) keypress)"

text \<open>
  The result \<^verbatim>\<open>resolve\<close> builds from the rule it found. Chords are strings, so
  \<^verbatim>\<open>result.chords[1] !== null\<close> holds whenever \<^verbatim>\<open>result.chords.length > 1\<close>.
\<close>

definition resultOf :: "'e store \<Rightarrow> string option \<Rightarrow> ref \<Rightarrow> IResolveResult" where
  "resultOf h currentChord result =
     (if currentChord = None \<and> length (chords (h result)) > 1
      then \<lparr>enterMultiChord = True, leaveMultiChord = False, commands_r = [], bubble_r = False\<rparr>
      else \<lparr>enterMultiChord = False,
            leaveMultiChord = (length (chords (h result)) > 1),
            commands_r = commands (h result),
            bubble_r = bubble (h result)\<rparr>)"

text \<open>\<^verbatim>\<open>resolve\<close>.\<close>

definition resolve ::
  "('e, 'c) ContextKeyOps \<Rightarrow> 'e store \<Rightarrow> Resolver \<Rightarrow> 'c \<Rightarrow> string option \<Rightarrow> string
     \<Rightarrow> IResolveResult option" where
  "resolve ops h st context currentChord keypress =
     (case resolveCandidates h st currentChord keypress of
        None \<Rightarrow> None
      | Some candidates \<Rightarrow>
          (case findCommand ops h context candidates of
             None \<Rightarrow> None
           | Some result \<Rightarrow> Some (resultOf h currentChord result)))"

section \<open>Properties of rules used in the statements\<close>

text \<open>
  The constructor's test for skipping a rule whose \<^verbatim>\<open>when\<close> is the constant false, and the
  rules of the merged list that are entered under first chord \<open>K\<close>.
\<close>

definition whenIsFalse :: "('e, 'c) ContextKeyOps \<Rightarrow> 'e option \<Rightarrow> bool" where
  "whenIsFalse ops w = (case w of None \<Rightarrow> False | Some e \<Rightarrow> exprType ops e = ExprFalse)"

definition indexedAt :: "('e, 'c) ContextKeyOps \<Rightarrow> 'e store \<Rightarrow> string \<Rightarrow> ref \<Rightarrow> bool" where
  "indexedAt ops h K r =
     (chords (h r) \<noteq> [] \<and> \<not> whenIsFalse ops (when_expr (h r)) \<and> chords (h r) ! 0 = K)"

text \<open>A rule that the second pass of the removal pass pushes without looking at removals.\<close>

definition passesThrough :: "'e ResolvedKeybindingItem \<Rightarrow> bool" where
  "passesThrough rule =
     (commands rule = [] \<or> length (commands rule) > 1
        \<or> (length (commands rule) = 1 \<and> command (commands rule ! 0) = []))"

text \<open>A rule with the single command \<open>C\<close>.\<close>

definition bindsCommand :: "'e ResolvedKeybindingItem \<Rightarrow> string \<Rightarrow> bool" where
  "bindsCommand rule C = (length (commands rule) = 1 \<and> command (commands rule ! 0) = C)"

text \<open>The array stored under a key of a map, empty when the key has no entry.\<close>

definition entryOf :: "'v list JSMap \<Rightarrow> string \<Rightarrow> 'v list" where
  "entryOf m k = (case map_of m k of None \<Rightarrow> [] | Some xs \<Rightarrow> xs)"

text \<open>
  The three tests of the loop of \<^verbatim>\<open>_addKeyPress\<close> taken together: \<open>conflict\<close> is removed
  from the lookup map when \<open>item\<close> is added.
\<close>

definition shadowedBy :: "('e, 'c) ContextKeyOps \<Rightarrow> 'e store \<Rightarrow> ref \<Rightarrow> ref \<Rightarrow> bool" where
  "shadowedBy ops h item conflict =
     (\<not> commandsEqual (commands (h conflict)) (commands (h item))
      \<and> \<not> (length (chords (h conflict)) > 1 \<and> length (chords (h item)) > 1
             \<and> chordAt (chords (h conflict)) 1 \<noteq> chordAt (chords (h item)) 1)
      \<and> whenIsEntirelyIncluded ops (when_expr (h conflict)) (when_expr (h item)))"

text \<open>
  The invariant that links the two indices: a rule occurs in the lookup array of a command at
  most as often as in the chord entry of its first chord, and only in the array of its own
  single command.
\<close>

definition lookupInv :: "'e store \<Rightarrow> Resolver \<Rightarrow> bool" where
  "lookupInv h st =
     (\<forall>c r. count_list (entryOf (lookupMap st) c) r
              \<le> (if bindsCommand (h r) c
                  then count_list (entryOf (chordMap st) (chords (h r) ! 0)) r else 0))"

section \<open>A small context-key language for concrete runs\<close>

text \<open>
  Modelled from the spec: the context-key module (\<^verbatim>\<open>vs/platform/contextkey/common/contextkey\<close>)
  is not part of the resolver's file. The spec describes it as boolean expressions over named
  context variables with evaluation, a provable-implication check, equality up to constant
  substitution and distinguished constants true and false. This instance has the two constants
  and the test that a variable is defined; a context is the list of the defined variables.
  It is only used to run the resolver on concrete rules.
\<close>

datatype SampleExpr = SFalse | STrue | SDefined string

definition sampleType :: "SampleExpr \<Rightarrow> ContextKeyExprType" where
  "sampleType e = (case e of SFalse \<Rightarrow> ExprFalse | STrue \<Rightarrow> ExprTrue | SDefined k \<Rightarrow> ExprOther)"

definition sampleEvaluate :: "SampleExpr \<Rightarrow> string list \<Rightarrow> bool" where
  "sampleEvaluate e ctx = (case e of SFalse \<Rightarrow> False | STrue \<Rightarrow> True | SDefined k \<Rightarrow> k \<in> set ctx)"

definition sampleImplies :: "SampleExpr \<Rightarrow> SampleExpr \<Rightarrow> bool" where
  "sampleImplies p q = (p = SFalse \<or> q = STrue \<or> p = q)"

definition sampleOps :: "(SampleExpr, string list) ContextKeyOps" where
  "sampleOps =
     \<lparr>exprType = sampleType, evaluate = sampleEvaluate, implies = sampleImplies,
      expressionsAreEqualWithConstantSubstitution = (\<lambda>a b. a = b)\<rparr>"

text \<open>\<^verbatim>\<open>contextMatchesRules\<close> of a context-key service whose context is \<open>ctx\<close>.\<close>

definition sampleService :: "string list \<Rightarrow> SampleExpr option \<Rightarrow> bool" where
  "sampleService ctx rules = contextMatchesRules sampleOps ctx rules"

text \<open>Building a rule, and a store from the list of its items (reference \<open>i\<close> is position \<open>i\<close>).\<close>

definition mkRule ::
  "string list \<Rightarrow> SampleExpr option \<Rightarrow> string list \<Rightarrow> bool \<Rightarrow> SampleExpr ResolvedKeybindingItem" where
  "mkRule cs w cmds dflt =
     \<lparr>chords = cs, when_expr = w,
      commands = map (\<lambda>c. \<lparr>command = c, args = None\<rparr>) cmds,
      isDefault = dflt, bubble = False\<rparr>"

definition storeOf :: "SampleExpr ResolvedKeybindingItem list \<Rightarrow> SampleExpr store" where
  "storeOf items r = (if r < length items then items ! r else mkRule [] None [] False)"

section \<open>Concrete rule sets\<close>

text \<open>
  A rule set for the removal pass. Rule 0 is a default binding of \<open>x\<close> on chord \<open>a\<close> with a
  predicate, rule 1 a user binding of \<open>x\<close> on \<open>a\<close>, rule 2 the user's removal directive
  \<open>-x\<close> on \<open>a\<close> without predicate, rule 3 a default rule without command, rule 4 a default rule
  with the two commands \<open>x\<close> and \<open>z\<close>, rule 5 a default rule whose command is the empty string.
\<close>

definition removalStore :: "SampleExpr store" where
  "removalStore = storeOf
     [mkRule [''a''] (Some (SDefined ''p'')) [''x''] True,
      mkRule [''a''] None [''x''] False,
      mkRule [''a''] None [''-x''] False,
      mkRule [''b''] None [] True,
      mkRule [''a''] None [''x'', ''z''] True,
      mkRule [''a''] None [[]] True]"

text \<open>Two rules on chord \<open>a\<close>: a default binding of \<open>x\<close> when \<open>p\<close> is defined, then a user
  binding of \<open>y\<close> without predicate.\<close>

definition priorityStore :: "SampleExpr store" where
  "priorityStore = storeOf
     [mkRule [''a''] (Some (SDefined ''p'')) [''x''] True,
      mkRule [''a''] None [''y''] False]"


text \<open>A two-chord default binding of \<open>x\<close> on \<open>k1 k2\<close> when \<open>p\<close> is defined, then a user binding
  of \<open>y\<close> on the single chord \<open>k1\<close> without predicate.\<close>

definition shadowStore :: "SampleExpr store" where
  "shadowStore = storeOf
     [mkRule [''k1'', ''k2''] (Some (SDefined ''p'')) [''x''] True,
      mkRule [''k1''] None [''y''] False]"

text \<open>Two two-chord rules that share the first chord only: \<open>x\<close> on \<open>k1 k2\<close> when \<open>p\<close> is
  defined, then \<open>y\<close> on \<open>k1 k3\<close> without predicate.\<close>

definition unrelatedStore :: "SampleExpr store" where
  "unrelatedStore = storeOf
     [mkRule [''k1'', ''k2''] (Some (SDefined ''p'')) [''x''] True,
      mkRule [''k1'', ''k3''] None [''y''] False]"

text \<open>A single two-chord rule: \<open>x\<close> on \<open>k1 k2\<close>.\<close>

definition chordStore :: "SampleExpr store" where
  "chordStore = storeOf [mkRule [''k1'', ''k2''] None [''x''] True]"

text \<open>Two bindings of the command \<open>x\<close> on different chords: on \<open>a\<close> when \<open>p\<close> is defined, then on
  \<open>b\<close> when \<open>q\<close> is defined.\<close>

definition primaryStore :: "SampleExpr store" where
  "primaryStore = storeOf
     [mkRule [''a''] (Some (SDefined ''p'')) [''x''] True,
      mkRule [''b''] (Some (SDefined ''q'')) [''x''] True]"

text \<open>A rule on chord \<open>a\<close> without any command.\<close>

definition unboundStore :: "SampleExpr store" where
  "unboundStore = storeOf [mkRule [''a''] None [] True]"

section \<open>The removal pass: proofs\<close>

lemma update_not_Nil: "AList.update k v al \<noteq> []"
  by (cases al) auto

lemma addRemoval_Nil_iff: "addRemoval h r acc = [] \<longleftrightarrow> acc = [] \<and> \<not> isRemovalRule (h r)"
  by (auto simp: addRemoval_def Let_def update_not_Nil split: option.splits)

lemma collect_fold_Nil_iff:
  "fold (addRemoval h) rules acc = [] \<longleftrightarrow> acc = [] \<and> (\<forall>r\<in>set rules. \<not> isRemovalRule (h r))"
  by (induction rules arbitrary: acc) (auto simp: addRemoval_Nil_iff)

text \<open>The removal map is empty exactly when no rule is a removal directive.\<close>

lemma collectRemovals_Nil_iff:
  "collectRemovals h rules = [] \<longleftrightarrow> (\<forall>r\<in>set rules. \<not> isRemovalRule (h r))"
  by (simp add: collectRemovals_def collect_fold_Nil_iff)

lemma collect_fold_lookup:
  "map_of (fold (addRemoval h) rules acc) c =
     (let ds = filter (\<lambda>r. isRemovalRule (h r) \<and> substring1 (command (commands (h r) ! 0)) = c) rules
      in case map_of acc c of
           None \<Rightarrow> if ds = [] then None else Some ds
         | Some rs \<Rightarrow> Some (rs @ ds))"
proof (induction rules arbitrary: acc)
  case Nil
  then show ?case by (simp split: option.splits)
next
  case (Cons r rules)
  show ?case
    by (simp only: fold_simps Cons.IH)
       (auto simp: addRemoval_def Let_def update_conv' split: option.splits)
qed

text \<open>The entry of a command in the removal map: the directives that name it, in order.\<close>

lemma collectRemovals_lookup:
  "map_of (collectRemovals h rules) c =
     (let ds = filter (\<lambda>r. isRemovalRule (h r) \<and> substring1 (command (commands (h r) ! 0)) = c) rules
      in if ds = [] then None else Some ds)"
  by (simp add: collectRemovals_def collect_fold_lookup)

lemma keepRule_not_removal: "keepRule ops h removals r \<Longrightarrow> \<not> isRemovalRule (h r)"
  by (auto simp: keepRule_def isRemovalRule_def charAt_def split: if_splits)

lemma passesThrough_keep: "passesThrough (h r) \<Longrightarrow> keepRule ops h removals r"
  by (auto simp: passesThrough_def keepRule_def)

lemma user_rule_kept:
  assumes "\<not> isDefault (h u)" "\<not> isRemovalRule (h u)"
  shows "keepRule ops h removals u"
proof -
  have "length (commands (h u)) = 1 \<Longrightarrow> charAt (command (commands (h u) ! 0)) 0 \<noteq> ''-''"
    using assms(2) by (simp add: isRemovalRule_def)
  moreover have "length (commands (h u)) = 0 \<or> length (commands (h u)) = 1
                   \<or> length (commands (h u)) > 1" by arith
  ultimately show ?thesis
    using assms(1) by (auto simp: keepRule_def split: option.splits)
qed

lemma handleRemovals_eq:
  "handleRemovals ops h rules =
     (if \<forall>r\<in>set rules. \<not> isRemovalRule (h r) then rules
      else filter (keepRule ops h (collectRemovals h rules)) rules)"
  by (simp add: handleRemovals_def Let_def collectRemovals_Nil_iff)

lemma handleRemovals_subset: "set (handleRemovals ops h rules) \<subseteq> set rules"
  by (auto simp: handleRemovals_eq)


lemma handleRemovals_no_removal:
  "r \<in> set (handleRemovals ops h rules) \<Longrightarrow> \<not> isRemovalRule (h r)"
  by (auto simp: handleRemovals_eq keepRule_not_removal split: if_splits)

lemma filter_filter_absorb: "(\<And>x. Q x \<Longrightarrow> P x) \<Longrightarrow> filter Q (filter P xs) = filter Q xs"
  by (induction xs) auto

lemma handleRemovals_passesThrough:
  "filter (\<lambda>r. passesThrough (h r)) (handleRemovals ops h rules)
     = filter (\<lambda>r. passesThrough (h r)) rules"
proof -
  have "filter (\<lambda>r. passesThrough (h r)) (filter (keepRule ops h m) rules)
          = filter (\<lambda>r. passesThrough (h r)) rules" for m
    by (induction rules) (auto simp: passesThrough_keep)
  then show ?thesis by (simp add: handleRemovals_eq)
qed

lemma isRemoved_iff:
  "isRemoved ops h rule crs \<longleftrightarrow>
     (\<exists>cr\<in>set crs. isTargetedForRemoval ops (h rule) (chordAt (chords (h cr)) 0)
                      (chordAt (chords (h cr)) 1) (when_expr (h cr)))"
  by (induction crs) (auto simp: Let_def)

text \<open>
  Claim C1. Let \<open>C\<close> be a command id, that is a non-empty string that does not start with
  \<open>-\<close> (a rule whose command is empty binds no command, and one whose command starts with
  \<open>-\<close> is a removal directive). If the rules given to \<open>handleRemovals\<close> contain a removal
  directive with chord list \<open>[K]\<close>, no predicate and the single command \<open>-C\<close>, then every
  default rule with the single command \<open>C\<close> and first chord \<open>K\<close> is absent from the output,
  whatever its predicate and its further chords; and the user rules with the single command
  \<open>C\<close> are all kept, in their order (on chord \<open>K\<close> or any other).
\<close>

theorem removal_targets_defaults_only:
  assumes C: "C \<noteq> []" "hd C \<noteq> CHR ''-''"
    and dir: "dir \<in> set rules" "chords (h dir) = [K]" "when_expr (h dir) = None"
             "bindsCommand (h dir) (CHR ''-'' # C)"
  shows "(\<forall>d. isDefault (h d) \<and> bindsCommand (h d) C \<and> chordAt (chords (h d)) 0 = Some K
            \<longrightarrow> d \<notin> set (handleRemovals ops h rules))
       \<and> filter (\<lambda>u. \<not> isDefault (h u) \<and> bindsCommand (h u) C) (handleRemovals ops h rules)
           = filter (\<lambda>u. \<not> isDefault (h u) \<and> bindsCommand (h u) C) rules"
proof (intro conjI allI impI)
  have rem: "isRemovalRule (h dir)"
    using dir by (simp add: isRemovalRule_def bindsCommand_def charAt_def)
  have tgt: "substring1 (command (commands (h dir) ! 0)) = C"
    using dir by (simp add: bindsCommand_def substring1_def)
  have hr: "handleRemovals ops h rules = filter (keepRule ops h (collectRemovals h rules)) rules"
    using rem dir(1) by (auto simp: handleRemovals_eq)
  define ds where
    "ds = filter (\<lambda>r. isRemovalRule (h r) \<and> substring1 (command (commands (h r) ! 0)) = C) rules"
  have ds2: "dir \<in> set ds" using rem tgt dir(1) by (simp add: ds_def)
  then have "ds \<noteq> []" by auto
  then have ds1: "map_of (collectRemovals h rules) C = Some ds"
    by (simp add: collectRemovals_lookup Let_def ds_def)
  {
    fix d
    assume d: "isDefault (h d) \<and> bindsCommand (h d) C \<and> chordAt (chords (h d)) 0 = Some K"
    have "isTargetedForRemoval ops (h d) (chordAt (chords (h dir)) 0)
            (chordAt (chords (h dir)) 1) (when_expr (h dir))"
      using d dir by (simp add: isTargetedForRemoval_def chordAt_def truthy_def)
    then have "isRemoved ops h d ds" using ds2 by (auto simp: isRemoved_iff)
    then have "\<not> keepRule ops h (collectRemovals h rules) d"
      using d C ds1 by (cases C) (auto simp: keepRule_def bindsCommand_def charAt_def)
    then show "d \<notin> set (handleRemovals ops h rules)" by (simp add: hr)
  }
  have "keepRule ops h (collectRemovals h rules) u"
    if u: "\<not> isDefault (h u) \<and> bindsCommand (h u) C" for u
  proof -
    have "\<not> isRemovalRule (h u)"
      using u C by (cases C) (auto simp: isRemovalRule_def bindsCommand_def charAt_def)
    then show ?thesis using u by (simp add: user_rule_kept)
  qed
  then have "filter (\<lambda>u. \<not> isDefault (h u) \<and> bindsCommand (h u) C)
               (filter (keepRule ops h (collectRemovals h rules)) rules)
             = filter (\<lambda>u. \<not> isDefault (h u) \<and> bindsCommand (h u) C) rules"
    by (rule filter_filter_absorb)
  then show "filter (\<lambda>u. \<not> isDefault (h u) \<and> bindsCommand (h u) C) (handleRemovals ops h rules)
           = filter (\<lambda>u. \<not> isDefault (h u) \<and> bindsCommand (h u) C) rules"
    by (simp add: hr)
qed

text \<open>
  On the concrete rule set: the directive (rule 2) removes the default binding of \<open>x\<close>
  (rule 0) although that rule has a predicate, and keeps the user's binding (rule 1).
\<close>

theorem removal_targets_defaults_only_witness:
  "2 \<in> set [0, 1, 2, 3, 4, 5::nat] \<and> chords (removalStore 2) = [''a'']
     \<and> when_expr (removalStore 2) = None \<and> bindsCommand (removalStore 2) ''-x''
     \<and> isDefault (removalStore 0) \<and> bindsCommand (removalStore 0) ''x''
     \<and> when_expr (removalStore 0) = Some (SDefined ''p'')
     \<and> 0 \<notin> set (handleRemovals sampleOps removalStore [0, 1, 2, 3, 4, 5])
     \<and> filter (\<lambda>u. \<not> isDefault (removalStore u) \<and> bindsCommand (removalStore u) ''x'')
          (handleRemovals sampleOps removalStore [0, 1, 2, 3, 4, 5]) = [1]"
proof -
  have a: "2 \<in> set [0, 1, 2, 3, 4, 5::nat]" by simp
  have b: "chords (removalStore 2) = [''a'']" by code_simp
  have c: "when_expr (removalStore 2) = None" by code_simp
  have d: "bindsCommand (removalStore 2) (CHR ''-'' # ''x'')" by code_simp
  have e: "isDefault (removalStore 0) \<and> bindsCommand (removalStore 0) ''x''
             \<and> chordAt (chords (removalStore 0)) 0 = Some ''a''" by code_simp
  have f: "when_expr (removalStore 0) = Some (SDefined ''p'')" by code_simp
  have g: "filter (\<lambda>u. \<not> isDefault (removalStore u) \<and> bindsCommand (removalStore u) ''x'')
             [0, 1, 2, 3, 4, 5] = [1]" by code_simp
  have t: "''x'' \<noteq> []" "hd ''x'' \<noteq> CHR ''-''" by simp_all
  from removal_targets_defaults_only
         [where C = "''x''" and dir = 2 and rules = "[0, 1, 2, 3, 4, 5]" and h = removalStore
            and K = "''a''" and ops = sampleOps, OF t a b c d]
       e f g a b c d
  show ?thesis by simp
qed

text \<open>
  Claim C8. \<open>handleRemovals\<close> is idempotent: its output contains no removal directive, so a
  second application finds no removal and returns its input.
\<close>

theorem handleRemovals_idempotent:
  "handleRemovals ops h (handleRemovals ops h rs) = handleRemovals ops h rs"
proof -
  have "collectRemovals h (handleRemovals ops h rs) = []"
    using handleRemovals_no_removal [of _ ops h rs] by (simp add: collectRemovals_Nil_iff)
  then show ?thesis
    by (simp add: handleRemovals_def [of ops h "handleRemovals ops h rs"])
qed

text \<open>
  On the concrete rule set the first application drops rules 0 and 2, and the second
  application changes nothing.
\<close>

theorem handleRemovals_idempotent_witness:
  "handleRemovals sampleOps removalStore [0, 1, 2, 3, 4, 5] = [1, 3, 4, 5]
     \<and> handleRemovals sampleOps removalStore
         (handleRemovals sampleOps removalStore [0, 1, 2, 3, 4, 5]) = [1, 3, 4, 5]"
proof -
  have "handleRemovals sampleOps removalStore [0, 1, 2, 3, 4, 5] = [1, 3, 4, 5]"
    by code_simp
  with handleRemovals_idempotent [of sampleOps removalStore "[0, 1, 2, 3, 4, 5]"]
  show ?thesis by simp
qed

section \<open>The two indices: proofs\<close>

lemma entryOf_update: "entryOf (AList.update k v m) k' = (if k' = k then v else entryOf m k')"
  by (simp add: entryOf_def update_conv')

lemma entryOf_Nil: "entryOf [] k = []"
  by (simp add: entryOf_def)

lemma count_list_remove1:
  "count_list (remove1 x xs) y = (if x = y then count_list xs y - 1 else count_list xs y)"
  by (induction xs) auto

lemma removeFromLookupMap_count:
  "count_list (entryOf (removeFromLookupMap h x lm) c) r =
     (if r = x \<and> bindsCommand (h x) c then count_list (entryOf lm c) r - 1
      else count_list (entryOf lm c) r)"
proof (cases "length (commands (h x)) = 1")
  case False
  then show ?thesis by (simp add: removeFromLookupMap_def bindsCommand_def)
next
  case True
  show ?thesis
  proof (cases "map_of lm (command (commands (h x) ! 0))")
    case None
    then have "entryOf lm (command (commands (h x) ! 0)) = []" by (simp add: entryOf_def)
    with None True show ?thesis
      by (auto simp: removeFromLookupMap_def bindsCommand_def)
  next
    case (Some arr)
    then have "entryOf lm (command (commands (h x) ! 0)) = arr" by (simp add: entryOf_def)
    with Some True show ?thesis
      by (auto simp: removeFromLookupMap_def bindsCommand_def entryOf_update count_list_remove1)
  qed
qed

lemma addToLookupMap_count:
  "count_list (entryOf (addToLookupMap h x lm) c) r =
     (if r = x \<and> bindsCommand (h x) c then count_list (entryOf lm c) r + 1
      else count_list (entryOf lm c) r)"
proof (cases "length (commands (h x)) = 1")
  case False
  then show ?thesis by (simp add: addToLookupMap_def bindsCommand_def)
next
  case True
  show ?thesis
  proof (cases "map_of lm (command (commands (h x) ! 0))")
    case None
    then have "entryOf lm (command (commands (h x) ! 0)) = []" by (simp add: entryOf_def)
    with None True show ?thesis
      by (auto simp: addToLookupMap_def bindsCommand_def entryOf_update)
  next
    case (Some arr)
    then have "entryOf lm (command (commands (h x) ! 0)) = arr" by (simp add: entryOf_def)
    with Some True show ?thesis
      by (auto simp: addToLookupMap_def bindsCommand_def entryOf_update)
  qed
qed

lemma conflictLoop_fold:
  "n \<le> length conflicts \<Longrightarrow>
     conflictLoop ops h item conflicts n lm =
       fold (\<lambda>c lm. if shadowedBy ops h item c then removeFromLookupMap h c lm else lm)
         (rev (take n conflicts)) lm"
proof (induction n arbitrary: lm)
  case 0
  then show ?case by simp
next
  case (Suc n)
  then have t: "take (Suc n) conflicts = take n conflicts @ [conflicts ! n]"
    by (simp add: take_Suc_conv_app_nth)
  from Suc have IH: "\<And>lm. conflictLoop ops h item conflicts n lm =
       fold (\<lambda>c lm. if shadowedBy ops h item c then removeFromLookupMap h c lm else lm)
         (rev (take n conflicts)) lm" by simp
  show ?case
    by (simp add: t IH Let_def shadowedBy_def)
qed

lemma fold_remove_count:
  "count_list (entryOf
       (fold (\<lambda>c lm. if shadowedBy ops h item c then removeFromLookupMap h c lm else lm) xs lm) c) r
     = count_list (entryOf lm c) r
         - (if bindsCommand (h r) c \<and> shadowedBy ops h item r then count_list xs r else 0)"
  by (induction xs arbitrary: lm) (auto simp: removeFromLookupMap_count)

lemma addKeyPress_count:
  "count_list (entryOf (lookupMap (addKeyPress ops h K item st)) c) r =
     (count_list (entryOf (lookupMap st) c) r
        - (if bindsCommand (h r) c \<and> shadowedBy ops h item r
           then count_list (entryOf (chordMap st) K) r else 0))
     + (if r = item \<and> bindsCommand (h item) c then 1 else 0)"
proof (cases "map_of (chordMap st) K")
  case None
  then have "entryOf (chordMap st) K = []" by (simp add: entryOf_def)
  with None show ?thesis
    by (simp add: addKeyPress_def addToLookupMap_count)
next
  case (Some conflicts)
  then have "entryOf (chordMap st) K = conflicts" by (simp add: entryOf_def)
  with Some show ?thesis
    by (simp add: addKeyPress_def Let_def addToLookupMap_count conflictLoop_fold fold_remove_count)
qed

lemma addKeyPress_entry:
  "entryOf (chordMap (addKeyPress ops h K item st)) K' =
     (if K' = K then entryOf (chordMap st) K @ [item] else entryOf (chordMap st) K')"
  by (auto simp: addKeyPress_def Let_def entryOf_def update_conv' split: option.splits)

lemma addKeyPress_inv:
  assumes "lookupInv h st" "chords (h item) ! 0 = K"
  shows "lookupInv h (addKeyPress ops h K item st)"
  unfolding lookupInv_def
proof (intro allI)
  fix c r
  have o: "count_list (entryOf (lookupMap st) c) r
              \<le> (if bindsCommand (h r) c
                  then count_list (entryOf (chordMap st) (chords (h r) ! 0)) r else 0)"
    using assms(1) by (simp add: lookupInv_def)
  show "count_list (entryOf (lookupMap (addKeyPress ops h K item st)) c) r
          \<le> (if bindsCommand (h r) c
              then count_list (entryOf (chordMap (addKeyPress ops h K item st)) (chords (h r) ! 0)) r
              else 0)"
    using o assms(2) by (auto simp: addKeyPress_count addKeyPress_entry)
qed

lemma indexRule_inv: "lookupInv h st \<Longrightarrow> lookupInv h (indexRule ops h k st)"
  by (simp add: indexRule_def addKeyPress_inv)

lemma fold_indexRule_inv: "lookupInv h st \<Longrightarrow> lookupInv h (fold (indexRule ops h) ks st)"
  by (induction ks arbitrary: st) (simp_all add: indexRule_inv)

lemma indexRule_count_mono:
  "r \<noteq> k \<Longrightarrow> count_list (entryOf (lookupMap (indexRule ops h k st)) c) r
                \<le> count_list (entryOf (lookupMap st) c) r"
  by (simp add: indexRule_def addKeyPress_count)

lemma fold_indexRule_count_mono:
  "r \<notin> set ks \<Longrightarrow> count_list (entryOf (lookupMap (fold (indexRule ops h) ks st)) c) r
                \<le> count_list (entryOf (lookupMap st) c) r"
proof (induction ks arbitrary: st)
  case Nil
  then show ?case by simp
next
  case (Cons k ks)
  then have "count_list (entryOf (lookupMap (fold (indexRule ops h) ks (indexRule ops h k st))) c) r
                \<le> count_list (entryOf (lookupMap (indexRule ops h k st)) c) r" by simp
  also have "\<dots> \<le> count_list (entryOf (lookupMap st) c) r"
    using Cons.prems by (simp add: indexRule_count_mono)
  finally show ?case by simp
qed

lemma indexRule_shadow:
  assumes "lookupInv h st" "indexedAt ops h K A" "chords (h B) ! 0 = K"
    "shadowedBy ops h A B" "B \<noteq> A"
  shows "count_list (entryOf (lookupMap (indexRule ops h A st)) c) B = 0"
proof -
  have o: "count_list (entryOf (lookupMap st) c) B
              \<le> (if bindsCommand (h B) c
                  then count_list (entryOf (chordMap st) (chords (h B) ! 0)) B else 0)"
    using assms(1) by (simp add: lookupInv_def)
  have "indexRule ops h A st = addKeyPress ops h K A st"
    using assms(2) by (auto simp: indexRule_def indexedAt_def whenIsFalse_def)
  then show ?thesis using o assms(3,4,5) by (auto simp: addKeyPress_count)
qed

section \<open>Resolution: proofs\<close>

lemma scanDown_find:
  "n \<le> length items \<Longrightarrow> scanDown ok items n = find ok (rev (take n items))"
proof (induction n)
  case 0
  then show ?case by simp
next
  case (Suc n)
  then have "take (Suc n) items = take n items @ [items ! n]"
    by (simp add: take_Suc_conv_app_nth)
  with Suc show ?case by (simp add: Let_def)
qed

lemma findCommand_find:
  "findCommand ops h ctx matches
     = find (\<lambda>k. contextMatchesRules ops ctx (when_expr (h k))) (rev matches)"
  by (simp add: findCommand_def scanDown_find)

lemma resolve_find:
  "resolve ops h st ctx cur kp =
     (case resolveCandidates h st cur kp of
        None \<Rightarrow> None
      | Some cands \<Rightarrow>
          map_option (resultOf h cur)
            (find (\<lambda>k. contextMatchesRules ops ctx (when_expr (h k))) (rev cands)))"
  by (simp add: resolve_def findCommand_find split: option.splits)

lemma find_skip: "\<forall>a\<in>set as. \<not> P a \<Longrightarrow> find P (as @ bs) = find P bs"
  by (induction as) auto

lemma find_rev_last:
  "P b \<Longrightarrow> \<forall>y\<in>set ys. \<not> P y \<Longrightarrow> find P (rev (xs @ b # ys)) = Some b"
  using find_skip [of "rev ys" P "b # rev xs"] by simp

lemma find_only:
  "r \<in> set xs \<Longrightarrow> P r \<Longrightarrow> \<forall>x\<in>set xs. x \<noteq> r \<longrightarrow> \<not> P x \<Longrightarrow> find P xs = Some r"
  by (induction xs) auto

lemma find_none: "\<forall>x\<in>set xs. \<not> P x \<Longrightarrow> find P xs = None"
  by (induction xs) auto

lemma indexRule_entry:
  "entryOf (chordMap (indexRule ops h r st)) K =
     (if indexedAt ops h K r then entryOf (chordMap st) K @ [r] else entryOf (chordMap st) K)"
  by (auto simp: indexRule_def indexedAt_def whenIsFalse_def addKeyPress_entry)

lemma fold_indexRule_entry:
  "entryOf (chordMap (fold (indexRule ops h) ks st)) K =
     entryOf (chordMap st) K @ filter (indexedAt ops h K) ks"
  by (induction ks arbitrary: st) (simp_all add: indexRule_entry)

lemma addKeyPress_dom:
  "map_of (chordMap (addKeyPress ops h k item st)) K = None
     \<longleftrightarrow> K \<noteq> k \<and> map_of (chordMap st) K = None"
  by (auto simp: addKeyPress_def Let_def update_conv' split: option.splits)

lemma indexRule_dom:
  "map_of (chordMap (indexRule ops h r st)) K = None
     \<longleftrightarrow> \<not> indexedAt ops h K r \<and> map_of (chordMap st) K = None"
  by (auto simp: indexRule_def indexedAt_def whenIsFalse_def addKeyPress_dom)

lemma fold_indexRule_dom:
  "map_of (chordMap (fold (indexRule ops h) ks st)) K = None
     \<longleftrightarrow> filter (indexedAt ops h K) ks = [] \<and> map_of (chordMap st) K = None"
  by (induction ks arbitrary: st) (auto simp: indexRule_dom)

lemma addKeyPress_fields:
  "keybindings (addKeyPress ops h k item st) = keybindings st"
  "defaultKeybindings (addKeyPress ops h k item st) = defaultKeybindings st"
  "defaultBoundCommands (addKeyPress ops h k item st) = defaultBoundCommands st"
  by (simp_all add: addKeyPress_def Let_def split: option.splits)

lemma fold_indexRule_fields:
  "keybindings (fold (indexRule ops h) ks st) = keybindings st"
  "defaultKeybindings (fold (indexRule ops h) ks st) = defaultKeybindings st"
  "defaultBoundCommands (fold (indexRule ops h) ks st) = defaultBoundCommands st"
  by (induction ks arbitrary: st) (simp_all add: indexRule_def addKeyPress_fields)

lemma resolver_keybindings:
  "keybindings (KeybindingResolver ops h dk ov) = handleRemovals ops h (dk @ ov)"
  by (simp add: KeybindingResolver_def Let_def fold_indexRule_fields)

lemma resolver_defaultBound:
  "defaultBoundCommands (KeybindingResolver ops h dk ov) = collectDefaultBound h dk"
  by (simp add: KeybindingResolver_def Let_def fold_indexRule_fields)

lemma resolver_entry:
  "entryOf (chordMap (KeybindingResolver ops h dk ov)) K =
     filter (indexedAt ops h K) (handleRemovals ops h (dk @ ov))"
  by (simp add: KeybindingResolver_def Let_def fold_indexRule_entry entryOf_Nil)

lemma resolver_dom:
  "map_of (chordMap (KeybindingResolver ops h dk ov)) K = None
     \<longleftrightarrow> filter (indexedAt ops h K) (handleRemovals ops h (dk @ ov)) = []"
  by (simp add: KeybindingResolver_def Let_def fold_indexRule_dom)

lemma resolver_chordMap:
  "map_of (chordMap (KeybindingResolver ops h dk ov)) K =
     (if filter (indexedAt ops h K) (handleRemovals ops h (dk @ ov)) = [] then None
      else Some (filter (indexedAt ops h K) (handleRemovals ops h (dk @ ov))))"
proof (cases "map_of (chordMap (KeybindingResolver ops h dk ov)) K")
  case None
  then show ?thesis using resolver_dom [of ops h dk ov K] by simp
next
  case (Some cs)
  then have "filter (indexedAt ops h K) (handleRemovals ops h (dk @ ov)) \<noteq> []"
    using resolver_dom [of ops h dk ov K] by simp
  moreover have "cs = filter (indexedAt ops h K) (handleRemovals ops h (dk @ ov))"
    using Some resolver_entry [of ops h dk ov K] by (simp add: entryOf_def)
  ultimately show ?thesis using Some by simp
qed

lemma initial_inv:
  "lookupInv h \<lparr>defaultKeybindings = a, keybindings = b, defaultBoundCommands = c,
                 chordMap = [], lookupMap = []\<rparr>"
  by (simp add: lookupInv_def entryOf_Nil)

lemma resolver_inv: "lookupInv h (KeybindingResolver ops h dk ov)"
  unfolding KeybindingResolver_def Let_def
  by (rule fold_indexRule_inv) (rule initial_inv)

lemma lookupKeybindings_set:
  "set (lookupKeybindings st c) = set (entryOf (lookupMap st) c)"
  by (cases "map_of (lookupMap st) c") (simp_all add: lookupKeybindings_def entryOf_def)



text \<open>
  Claim C4. Let the chord entry of \<open>K1\<close> contain a rule \<open>r\<close> with chords \<open>[K1, K2]\<close> whose
  predicate holds in the context, and let no other rule of that entry be satisfied (in
  particular when \<open>r\<close> is the only rule of the entry). Then \<open>resolve\<close> without current chord
  on \<open>K1\<close> enters the chord with no commands; \<open>resolve\<close> in chord \<open>K1\<close> on \<open>K2\<close> returns the
  commands of \<open>r\<close> and leaves the chord; and \<open>resolve\<close> in chord \<open>K1\<close> on any other keypress
  returns no match.
\<close>

theorem multi_chord_flow:
  assumes "map_of (chordMap st) K1 = Some cands" "r \<in> set cands" "chords (h r) = [K1, K2]"
    "contextMatchesRules ops ctx (when_expr (h r))"
    "\<forall>r'\<in>set cands. r' \<noteq> r \<longrightarrow> \<not> contextMatchesRules ops ctx (when_expr (h r'))"
  shows "resolve ops h st ctx None K1
           = Some \<lparr>enterMultiChord = True, leaveMultiChord = False, commands_r = [],
                   bubble_r = False\<rparr>
       \<and> resolve ops h st ctx (Some K1) K2
           = Some \<lparr>enterMultiChord = False, leaveMultiChord = True,
                   commands_r = commands (h r), bubble_r = bubble (h r)\<rparr>
       \<and> (\<forall>K3. K3 \<noteq> K2 \<longrightarrow> resolve ops h st ctx (Some K1) K3 = None)"
proof (intro conjI allI impI)
  let ?P = "\<lambda>k. contextMatchesRules ops ctx (when_expr (h k))"
  have "find ?P (rev cands) = Some r"
    using assms by (intro find_only) auto
  then show "resolve ops h st ctx None K1
           = Some \<lparr>enterMultiChord = True, leaveMultiChord = False, commands_r = [],
                   bubble_r = False\<rparr>"
    using assms(1,3) by (simp add: resolve_find resolveCandidates_def resultOf_def)
  have "find ?P (rev (filter (\<lambda>c. chordAt (chords (h c)) 1 = Some K2) cands)) = Some r"
    using assms by (intro find_only) (auto simp: chordAt_def)
  then show "resolve ops h st ctx (Some K1) K2
           = Some \<lparr>enterMultiChord = False, leaveMultiChord = True,
                   commands_r = commands (h r), bubble_r = bubble (h r)\<rparr>"
    using assms(1,3) by (simp add: resolve_find resolveCandidates_def resultOf_def)
  fix K3 assume "K3 \<noteq> K2"
  then have "find ?P (rev (filter (\<lambda>c. chordAt (chords (h c)) 1 = Some K3) cands)) = None"
    using assms by (intro find_none) (auto simp: chordAt_def)
  then show "resolve ops h st ctx (Some K1) K3 = None"
    using assms(1) by (simp add: resolve_find resolveCandidates_def)
qed

text \<open>
  The resolver of the single rule \<open>x\<close> on \<open>k1 k2\<close>: \<open>k1\<close> enters the chord, \<open>k2\<close> after \<open>k1\<close>
  gives the command and leaves the chord, \<open>k3\<close> after \<open>k1\<close> gives no match.
\<close>

theorem multi_chord_flow_witness:
  "map_of (chordMap (KeybindingResolver sampleOps chordStore [0] [])) ''k1'' = Some [0]
   \<and> chords (chordStore 0) = [''k1'', ''k2'']
   \<and> resolve sampleOps chordStore (KeybindingResolver sampleOps chordStore [0] []) [] None ''k1''
       = Some \<lparr>enterMultiChord = True, leaveMultiChord = False, commands_r = [],
               bubble_r = False\<rparr>
   \<and> resolve sampleOps chordStore (KeybindingResolver sampleOps chordStore [0] []) []
         (Some ''k1'') ''k2''
       = Some \<lparr>enterMultiChord = False, leaveMultiChord = True,
               commands_r = [\<lparr>command = ''x'', args = None\<rparr>], bubble_r = False\<rparr>
   \<and> resolve sampleOps chordStore (KeybindingResolver sampleOps chordStore [0] []) []
         (Some ''k1'') ''k3'' = None"
proof -
  have a: "map_of (chordMap (KeybindingResolver sampleOps chordStore [0] [])) ''k1'' = Some [0]"
    by code_simp
  have b: "0 \<in> set [0::nat]" by simp
  have c: "chords (chordStore 0) = [''k1'', ''k2'']" by code_simp
  have d: "contextMatchesRules sampleOps [] (when_expr (chordStore 0))" by code_simp
  have e: "\<forall>r'\<in>set [0::nat]. r' \<noteq> 0
             \<longrightarrow> \<not> contextMatchesRules sampleOps [] (when_expr (chordStore r'))" by simp
  have f: "commands (chordStore 0) = [\<lparr>command = ''x'', args = None\<rparr>]"
    "bubble (chordStore 0) = False" by code_simp+
  have g: "''k3'' \<noteq> ''k2''" by simp
  from multi_chord_flow [OF a b c d e] f g a c show ?thesis by simp
qed

lemma resolve_SomeD:
  "resolve ops h st ctx cur kp = Some res \<Longrightarrow> \<exists>r. res = resultOf h cur r"
proof -
  assume a: "resolve ops h st ctx cur kp = Some res"
  then obtain cands where c: "resolveCandidates h st cur kp = Some cands"
    by (cases "resolveCandidates h st cur kp") (simp_all add: resolve_def)
  with a obtain r where "findCommand ops h ctx cands = Some r"
    by (cases "findCommand ops h ctx cands") (simp_all add: resolve_def)
  with a c have "res = resultOf h cur r" by (simp add: resolve_def)
  then show ?thesis ..
qed

lemma resultOf_mid: "\<not> enterMultiChord (resultOf h (Some cc) r)"
  by (simp add: resultOf_def)

lemma resultOf_enter:
  assumes "enterMultiChord (resultOf h cur r)"
  shows "cur = None"
    and "resultOf h cur r = \<lparr>enterMultiChord = True, leaveMultiChord = False, commands_r = [],
                                bubble_r = False\<rparr>"
  using assms by (simp_all add: resultOf_def split: if_splits)

text \<open>
  Claim C9. A result of \<open>resolve\<close> called with a current chord never enters a chord; a
  result that enters a chord comes from a call without current chord, and it has no commands,
  does not bubble and does not leave a chord.
\<close>

theorem enter_only_when_fresh:
  "(resolve ops h st ctx (Some cc) kp = Some res \<longrightarrow> \<not> enterMultiChord res)
   \<and> (resolve ops h st ctx cur kp = Some res' \<and> enterMultiChord res'
        \<longrightarrow> cur = None \<and> commands_r res' = [] \<and> \<not> bubble_r res' \<and> \<not> leaveMultiChord res')"
proof -
  have 1: "\<not> enterMultiChord res" if "resolve ops h st ctx (Some cc) kp = Some res"
  proof -
    from that obtain r where "res = resultOf h (Some cc) r" by (blast dest: resolve_SomeD)
    then show ?thesis by (simp add: resultOf_mid)
  qed
  have 2: "cur = None \<and> commands_r res' = [] \<and> \<not> bubble_r res' \<and> \<not> leaveMultiChord res'"
    if a: "resolve ops h st ctx cur kp = Some res'" "enterMultiChord res'"
  proof -
    from a obtain r where r: "res' = resultOf h cur r" by (blast dest: resolve_SomeD)
    with a have "enterMultiChord (resultOf h cur r)" by simp
    from resultOf_enter [OF this] r
    have "cur = None"
      and "res' = \<lparr>enterMultiChord = True, leaveMultiChord = False, commands_r = [],
                    bubble_r = False\<rparr>"
      by simp_all
    then show ?thesis by simp
  qed
  from 1 2 show ?thesis by blast
qed

text \<open>
  On the single two-chord rule: the call in the chord returns a result that does not enter a
  chord, and the result that enters a chord comes from the call without current chord.
\<close>

theorem enter_only_when_fresh_witness:
  "resolve sampleOps chordStore (KeybindingResolver sampleOps chordStore [0] []) []
         (Some ''k1'') ''k2''
       = Some \<lparr>enterMultiChord = False, leaveMultiChord = True,
               commands_r = [\<lparr>command = ''x'', args = None\<rparr>], bubble_r = False\<rparr>
   \<and> \<not> enterMultiChord
         \<lparr>enterMultiChord = False, leaveMultiChord = True,
          commands_r = [\<lparr>command = ''x'', args = None\<rparr>], bubble_r = False\<rparr>
   \<and> resolve sampleOps chordStore (KeybindingResolver sampleOps chordStore [0] []) [] None ''k1''
       = Some \<lparr>enterMultiChord = True, leaveMultiChord = False, commands_r = [],
               bubble_r = False\<rparr>"
proof -
  have a: "resolve sampleOps chordStore (KeybindingResolver sampleOps chordStore [0] []) []
         (Some ''k1'') ''k2''
       = Some \<lparr>enterMultiChord = False, leaveMultiChord = True,
               commands_r = [\<lparr>command = ''x'', args = None\<rparr>], bubble_r = False\<rparr>"
    by code_simp
  have b: "resolve sampleOps chordStore (KeybindingResolver sampleOps chordStore [0] []) []
         None ''k1''
       = Some \<lparr>enterMultiChord = True, leaveMultiChord = False, commands_r = [],
               bubble_r = False\<rparr>"
    by code_simp
  from enter_only_when_fresh
         [where ops = sampleOps and h = chordStore
            and st = "KeybindingResolver sampleOps chordStore [0] []" and ctx = "[]"
            and cc = "''k1''" and kp = "''k2''"
            and res = "\<lparr>enterMultiChord = False, leaveMultiChord = True,
                        commands_r = [\<lparr>command = ''x'', args = None\<rparr>], bubble_r = False\<rparr>"]
       a
  have "\<not> enterMultiChord
         \<lparr>enterMultiChord = False, leaveMultiChord = True,
          commands_r = [\<lparr>command = ''x'', args = None\<rparr>], bubble_r = False\<rparr>"
    by blast
  with a b show ?thesis by blast
qed

section \<open>The lookup map and the default bound commands: proofs\<close>

text \<open>
  Claim C3, amended. Let the merged rule list contain \<open>B\<close> before \<open>A\<close>, with \<open>B\<close> not occurring
  again at or after \<open>A\<close>, both entered in the chord index under the same first chord \<open>K\<close>, with
  different command sequences, with \<open>whenIsEntirelyIncluded (when B) (when A)\<close>, and not both
  of more than one chord with different second chords. Then no array of the lookup map contains \<open>B\<close>,
  while \<open>B\<close> is still in the chord entry of \<open>K\<close>, and \<open>resolve\<close> returns the result of \<open>B\<close>
  in every call whose candidates contain \<open>B\<close> when the predicate of \<open>B\<close> holds and the predicate
  of no candidate inserted after \<open>B\<close> does. (With an implication check that is sound for
  evaluation, the predicate of \<open>A\<close> holds whenever that of \<open>B\<close> does; \<open>B\<close> is then returned
  only by calls whose candidates do not contain \<open>A\<close>, such as the call in the chord for a
  \<open>B\<close> of several chords and a single-chord \<open>A\<close>.)
\<close>

theorem shadowed_rule_leaves_lookup_only:
  assumes kbs: "handleRemovals ops h (dk @ ov) = pre @ B # mid @ A # post"
    and once: "B \<notin> set (mid @ A # post)"
    and idx: "indexedAt ops h K B" "indexedAt ops h K A"
    and cmds: "\<not> commandsEqual (commands (h B)) (commands (h A))"
    and snd: "\<not> (length (chords (h B)) > 1 \<and> length (chords (h A)) > 1
                 \<and> chordAt (chords (h B)) 1 \<noteq> chordAt (chords (h A)) 1)"
    and incl: "whenIsEntirelyIncluded ops (when_expr (h B)) (when_expr (h A))"
  shows "(\<forall>c. B \<notin> set (lookupKeybindings (KeybindingResolver ops h dk ov) c))
       \<and> B \<in> set (entryOf (chordMap (KeybindingResolver ops h dk ov)) K)
       \<and> (\<forall>ctx cur kp xs ys.
             resolveCandidates h (KeybindingResolver ops h dk ov) cur kp = Some (xs @ B # ys)
             \<and> contextMatchesRules ops ctx (when_expr (h B))
             \<and> (\<forall>r\<in>set ys. \<not> contextMatchesRules ops ctx (when_expr (h r)))
           \<longrightarrow> resolve ops h (KeybindingResolver ops h dk ov) ctx cur kp
                 = Some (resultOf h cur B))"
proof -
  let ?R = "KeybindingResolver ops h dk ov"
  define st0 where
    "st0 = \<lparr>defaultKeybindings = dk, keybindings = handleRemovals ops h (dk @ ov),
            defaultBoundCommands = collectDefaultBound h dk,
            chordMap = [], lookupMap = ([] :: ref list JSMap)\<rparr>"
  define st1 where "st1 = fold (indexRule ops h) (pre @ B # mid) st0"
  have R: "?R = fold (indexRule ops h) post (indexRule ops h A st1)"
    by (simp add: KeybindingResolver_def Let_def kbs st0_def st1_def)
  have inv1: "lookupInv h st1"
    unfolding st1_def st0_def by (rule fold_indexRule_inv) (rule initial_inv)
  have sh: "shadowedBy ops h A B"
    using cmds snd incl by (simp add: shadowedBy_def)
  have "B \<noteq> A" "B \<notin> set post" using once by auto
  have key: "chords (h B) ! 0 = K" using idx(1) by (simp add: indexedAt_def)
  have 1: "B \<notin> set (lookupKeybindings ?R c)" for c
  proof -
    have "count_list (entryOf (lookupMap ?R) c) B
            \<le> count_list (entryOf (lookupMap (indexRule ops h A st1)) c) B"
      unfolding R using \<open>B \<notin> set post\<close> by (rule fold_indexRule_count_mono)
    also have "\<dots> = 0"
      using inv1 idx(2) key sh \<open>B \<noteq> A\<close> by (rule indexRule_shadow)
    finally have "count_list (entryOf (lookupMap ?R) c) B = 0" by simp
    then show ?thesis by (simp add: lookupKeybindings_set count_list_0_iff)
  qed
  have 2: "B \<in> set (entryOf (chordMap ?R) K)"
    using idx(1) by (simp add: resolver_entry kbs)
  have 3: "resolve ops h ?R ctx cur kp = Some (resultOf h cur B)"
    if "resolveCandidates h ?R cur kp = Some (xs @ B # ys)"
      "contextMatchesRules ops ctx (when_expr (h B))"
      "\<forall>r\<in>set ys. \<not> contextMatchesRules ops ctx (when_expr (h r))"
    for ctx cur kp xs ys
  proof -
    have "find (\<lambda>k. contextMatchesRules ops ctx (when_expr (h k))) (rev (xs @ B # ys)) = Some B"
      using that(2,3) by (rule find_rev_last)
    then show ?thesis by (simp add: resolve_find that(1))
  qed
  from 1 2 3 show ?thesis by blast
qed

text \<open>
  On \<open>shadowStore\<close>: the two-chord rule 0 (\<open>x\<close> on \<open>k1 k2\<close>) is shadowed by the single-chord
  rule 1 (\<open>y\<close> on \<open>k1\<close>, no predicate). Rule 0 leaves the lookup map and stays in the chord
  entry of \<open>k1\<close>; the call in the chord \<open>k1\<close> with keypress \<open>k2\<close> still returns its command.
\<close>

theorem shadowed_rule_leaves_lookup_only_witness:
  "whenIsEntirelyIncluded sampleOps (when_expr (shadowStore 0)) (when_expr (shadowStore 1))
   \<and> 0 \<notin> set (lookupKeybindings (KeybindingResolver sampleOps shadowStore [0] [1]) ''x'')
   \<and> lookupKeybindings (KeybindingResolver sampleOps shadowStore [0] [1]) ''y'' = [1]
   \<and> 0 \<in> set (entryOf (chordMap (KeybindingResolver sampleOps shadowStore [0] [1])) ''k1'')
   \<and> resolve sampleOps shadowStore (KeybindingResolver sampleOps shadowStore [0] [1])
         [''p''] (Some ''k1'') ''k2''
       = Some \<lparr>enterMultiChord = False, leaveMultiChord = True,
               commands_r = [\<lparr>command = ''x'', args = None\<rparr>], bubble_r = False\<rparr>"
proof -
  have a: "handleRemovals sampleOps shadowStore ([0] @ [1]) = [] @ 0 # [] @ 1 # []"
    by code_simp
  have b: "0 \<notin> set ([] @ 1 # ([]::nat list))" by simp
  have c: "indexedAt sampleOps shadowStore ''k1'' 0" "indexedAt sampleOps shadowStore ''k1'' 1"
    by code_simp+
  have d: "\<not> commandsEqual (commands (shadowStore 0)) (commands (shadowStore 1))"
    by code_simp
  have e: "\<not> (length (chords (shadowStore 0)) > 1 \<and> length (chords (shadowStore 1)) > 1
             \<and> chordAt (chords (shadowStore 0)) 1 \<noteq> chordAt (chords (shadowStore 1)) 1)"
    by code_simp
  have f: "whenIsEntirelyIncluded sampleOps (when_expr (shadowStore 0)) (when_expr (shadowStore 1))"
    by code_simp
  have g: "resolveCandidates shadowStore (KeybindingResolver sampleOps shadowStore [0] [1])
             (Some ''k1'') ''k2'' = Some ([] @ 0 # [])
           \<and> contextMatchesRules sampleOps [''p''] (when_expr (shadowStore 0))
           \<and> (\<forall>r\<in>set []. \<not> contextMatchesRules sampleOps [''p''] (when_expr (shadowStore r)))"
    by code_simp
  have r: "resultOf shadowStore (Some ''k1'') 0
             = \<lparr>enterMultiChord = False, leaveMultiChord = True,
                commands_r = [\<lparr>command = ''x'', args = None\<rparr>], bubble_r = False\<rparr>"
    by code_simp
  have y: "lookupKeybindings (KeybindingResolver sampleOps shadowStore [0] [1]) ''y'' = [1]"
    by code_simp
  note t = shadowed_rule_leaves_lookup_only [OF a b c d e f]
  from t have 1: "0 \<notin> set (lookupKeybindings (KeybindingResolver sampleOps shadowStore [0] [1]) ''x'')"
    by blast
  from t have 2: "0 \<in> set (entryOf (chordMap (KeybindingResolver sampleOps shadowStore [0] [1])) ''k1'')"
    by blast
  from t g have 3: "resolve sampleOps shadowStore (KeybindingResolver sampleOps shadowStore [0] [1])
         [''p''] (Some ''k1'') ''k2'' = Some (resultOf shadowStore (Some ''k1'') 0)"
    by blast
  from f 1 2 3 r y show ?thesis by simp
qed

text \<open>
  Claim C3 as stated fails when both rules have two chords and the second chords differ.
  On \<open>unrelatedStore\<close> rule 0 (\<open>x\<close> on \<open>k1 k2\<close>) is registered before rule 1 (\<open>y\<close> on \<open>k1 k3\<close>),
  they share the first chord, their commands differ and \<open>whenIsEntirelyIncluded\<close> holds, yet
  \<open>lookupKeybindings\<close> of \<open>x\<close> still contains rule 0.
\<close>

theorem shadowed_rule_counterexample:
  "handleRemovals sampleOps unrelatedStore ([0] @ [1]) = [0, 1]
   \<and> chords (unrelatedStore 0) ! 0 = chords (unrelatedStore 1) ! 0
   \<and> \<not> commandsEqual (commands (unrelatedStore 0)) (commands (unrelatedStore 1))
   \<and> whenIsEntirelyIncluded sampleOps (when_expr (unrelatedStore 0)) (when_expr (unrelatedStore 1))
   \<and> lookupKeybindings (KeybindingResolver sampleOps unrelatedStore [0] [1]) ''x'' = [0]"
  by code_simp

text \<open>
  Claim C5, amended. For a command whose lookup array is not empty, \<open>lookupPrimaryKeybinding\<close>
  always returns a rule: scanning from the last inserted candidate to the first, the first one
  whose predicate the context service accepts, and when none is accepted the last inserted
  candidate (the newest, not the oldest). With a single candidate it returns that candidate.
\<close>

theorem primary_falls_back_to_newest:
  assumes "map_of (lookupMap st) c = Some items" "items \<noteq> []"
  shows "lookupPrimaryKeybinding h st c svc
           = Some (case find (\<lambda>i. svc (when_expr (h i))) (rev items) of
                     Some r \<Rightarrow> r | None \<Rightarrow> last items)
       \<and> (length items = 1 \<longrightarrow> lookupPrimaryKeybinding h st c svc = Some (items ! 0))"
proof (cases "length items = 1")
  case True
  then obtain x where x: "items = [x]" by (cases items) auto
  then show ?thesis using assms(1) by (simp add: lookupPrimaryKeybinding_def)
next
  case False
  have l: "items ! (length items - 1) = last items"
    using assms(2) by (simp add: last_conv_nth)
  show ?thesis using False assms l
    by (simp add: lookupPrimaryKeybinding_def scanDown_find split: option.splits)
qed

text \<open>
  On \<open>primaryStore\<close> the command \<open>x\<close> has the two candidates 0 and 1, in this order. With \<open>p\<close>
  defined the scan skips rule 1 and returns rule 0.
\<close>

theorem primary_falls_back_to_newest_witness:
  "map_of (lookupMap (KeybindingResolver sampleOps primaryStore [0, 1] [])) ''x'' = Some [0, 1]
   \<and> lookupPrimaryKeybinding primaryStore (KeybindingResolver sampleOps primaryStore [0, 1] [])
         ''x'' (sampleService [''p'']) = Some 0"
proof -
  have a: "map_of (lookupMap (KeybindingResolver sampleOps primaryStore [0, 1] [])) ''x''
             = Some [0, 1]" by code_simp
  have b: "[0, 1] \<noteq> ([]::nat list)" by simp
  have c: "(case find (\<lambda>i. sampleService [''p''] (when_expr (primaryStore i))) (rev [0, 1]) of
              Some r \<Rightarrow> r | None \<Rightarrow> last [0, 1]) = 0" by code_simp
  from primary_falls_back_to_newest [OF a b, of primaryStore "sampleService [''p'']"] c a
  show ?thesis by simp
qed

text \<open>
  Claim C5 as stated fails in its last part. With no variable defined neither candidate of
  \<open>x\<close> matches, and \<open>lookupPrimaryKeybinding\<close> returns rule 1, the candidate inserted last,
  not rule 0, the oldest one.
\<close>

theorem primary_fallback_counterexample:
  "map_of (lookupMap (KeybindingResolver sampleOps primaryStore [0, 1] [])) ''x'' = Some [0, 1]
   \<and> \<not> sampleService [] (when_expr (primaryStore 0))
   \<and> \<not> sampleService [] (when_expr (primaryStore 1))
   \<and> lookupPrimaryKeybinding primaryStore (KeybindingResolver sampleOps primaryStore [0, 1] [])
         ''x'' (sampleService []) = Some 1
   \<and> lookupPrimaryKeybinding primaryStore (KeybindingResolver sampleOps primaryStore [0, 1] [])
         ''x'' (sampleService []) \<noteq> Some 0"
  by code_simp

lemma charAt0_dash: "charAt s 0 = ''-'' \<longleftrightarrow> (s \<noteq> [] \<and> hd s = CHR ''-'')"
  by (cases s) (auto simp: charAt_def)

lemma fold_addDefaultBound:
  "map_of (fold addDefaultBound kcs m) c =
     (if c \<noteq> [] \<and> hd c \<noteq> CHR ''-'' \<and> (\<exists>kc\<in>set kcs. command kc = c) then Some True
      else map_of m c)"
  by (induction kcs arbitrary: m) (auto simp: addDefaultBound_def update_conv' charAt0_dash)

lemma fold_fold_addDefaultBound:
  "map_of (fold (\<lambda>dkb. fold addDefaultBound (commands (h dkb))) dk m) c =
     (if c \<noteq> [] \<and> hd c \<noteq> CHR ''-'' \<and> (\<exists>r\<in>set dk. \<exists>kc\<in>set (commands (h r)). command kc = c)
      then Some True else map_of m c)"
  by (induction dk arbitrary: m) (auto simp: fold_addDefaultBound)

text \<open>
  Claim C6, amended. \<open>getDefaultBoundCommands\<close> maps to \<open>true\<close> exactly the non-empty
  command ids not starting with \<open>-\<close> that occur among the commands of some rule of the
  defaults given to the constructor, whether that rule has one command or several. The
  overrides play no part: a command whose default binding is erased by a removal directive
  is in the map, and a command bound by overrides only is not. When every default rule has at
  most one command, these are the non-empty command ids not starting with \<open>-\<close> that have a
  single-command default binding.
\<close>

theorem default_bound_commands:
  "map_of (getDefaultBoundCommands (KeybindingResolver ops h dk ov)) c =
     (if c \<noteq> [] \<and> hd c \<noteq> CHR ''-'' \<and> (\<exists>r\<in>set dk. \<exists>kc\<in>set (commands (h r)). command kc = c)
      then Some True else None)
   \<and> ((\<forall>r\<in>set dk. length (commands (h r)) \<le> 1) \<longrightarrow>
        (map_of (getDefaultBoundCommands (KeybindingResolver ops h dk ov)) c \<noteq> None
           \<longleftrightarrow> c \<noteq> [] \<and> hd c \<noteq> CHR ''-'' \<and> (\<exists>r\<in>set dk. bindsCommand (h r) c)))"
proof -
  have 1: "map_of (getDefaultBoundCommands (KeybindingResolver ops h dk ov)) c =
     (if c \<noteq> [] \<and> hd c \<noteq> CHR ''-'' \<and> (\<exists>r\<in>set dk. \<exists>kc\<in>set (commands (h r)). command kc = c)
      then Some True else None)"
    by (simp add: getDefaultBoundCommands_def resolver_defaultBound collectDefaultBound_def
          fold_fold_addDefaultBound)
  have 2: "(\<exists>kc\<in>set (commands (h r)). command kc = c) \<longleftrightarrow> bindsCommand (h r) c"
    if "length (commands (h r)) \<le> 1" for r
  proof (cases "commands (h r)")
    case Nil
    then show ?thesis by (simp add: bindsCommand_def)
  next
    case (Cons k ks)
    with that have "commands (h r) = [k]" by simp
    then show ?thesis by (simp add: bindsCommand_def)
  qed
  show ?thesis unfolding 1 using 2 by auto
qed

text \<open>
  With the defaults 0, 3, 4, 5 and the overrides 1, 2 of \<open>removalStore\<close>, the removal directive
  erases the only single-command default binding of \<open>x\<close>, and \<open>x\<close> is still a default bound
  command. With \<open>priorityStore\<close> the command \<open>y\<close> is bound by the user only and is not.
\<close>

theorem default_bound_commands_witness:
  "keybindings (KeybindingResolver sampleOps removalStore [0, 3, 4, 5] [1, 2]) = [3, 4, 5, 1]
   \<and> map_of (getDefaultBoundCommands
               (KeybindingResolver sampleOps removalStore [0, 3, 4, 5] [1, 2])) ''x'' = Some True
   \<and> map_of (getDefaultBoundCommands
               (KeybindingResolver sampleOps priorityStore [0] [1])) ''y'' = None
   \<and> map_of (getDefaultBoundCommands
               (KeybindingResolver sampleOps priorityStore [0] [1])) ''x'' \<noteq> None"
proof -
  have a: "keybindings (KeybindingResolver sampleOps removalStore [0, 3, 4, 5] [1, 2])
             = [3, 4, 5, 1]" by code_simp
  have b: "''x'' \<noteq> [] \<and> hd ''x'' \<noteq> CHR ''-''
             \<and> (\<exists>r\<in>set [0, 3, 4, 5]. \<exists>kc\<in>set (commands (removalStore r)). command kc = ''x'')"
    by code_simp
  have c: "\<not> (\<exists>r\<in>set [0]. \<exists>kc\<in>set (commands (priorityStore r)). command kc = ''y'')"
    by code_simp
  have d: "(\<forall>r\<in>set [0]. length (commands (priorityStore r)) \<le> 1)
             \<and> ''x'' \<noteq> [] \<and> hd ''x'' \<noteq> CHR ''-''
             \<and> (\<exists>r\<in>set [0]. bindsCommand (priorityStore r) ''x'')"
    by code_simp
  have 1: "map_of (getDefaultBoundCommands
               (KeybindingResolver sampleOps removalStore [0, 3, 4, 5] [1, 2])) ''x'' = Some True"
    using default_bound_commands [of sampleOps removalStore "[0, 3, 4, 5]" "[1, 2]" "''x''"] b
    by simp
  have 2: "map_of (getDefaultBoundCommands
               (KeybindingResolver sampleOps priorityStore [0] [1])) ''y'' = None"
    using default_bound_commands [of sampleOps priorityStore "[0]" "[1]" "''y''"] c
    by simp
  have 3: "map_of (getDefaultBoundCommands
               (KeybindingResolver sampleOps priorityStore [0] [1])) ''x'' \<noteq> None"
    using default_bound_commands [of sampleOps priorityStore "[0]" "[1]" "''x''"] d
    by blast
  from a 1 2 3 show ?thesis by simp
qed

text \<open>
  Claim C6 as stated fails for a default rule with several commands. Rule 4 of
  \<open>removalStore\<close> is a default rule with the commands \<open>x\<close> and \<open>z\<close>; no default rule has the
  single command \<open>z\<close>, and \<open>z\<close> is a default bound command.
\<close>

theorem default_bound_commands_counterexample:
  "filter (\<lambda>r. bindsCommand (removalStore r) ''z'') [0, 3, 4, 5] = []
   \<and> commands (removalStore 4) = [\<lparr>command = ''x'', args = None\<rparr>, \<lparr>command = ''z'', args = None\<rparr>]
   \<and> map_of (getDefaultBoundCommands
               (KeybindingResolver sampleOps removalStore [0, 3, 4, 5] [1, 2])) ''z'' = Some True"
  by code_simp

lemma lookup_entries:
  assumes "lookupInv h st" "r \<in> set (entryOf (lookupMap st) c)"
  shows "bindsCommand (h r) c \<and> r \<in> set (entryOf (chordMap st) (chords (h r) ! 0))"
proof -
  have "count_list (entryOf (lookupMap st) c) r \<noteq> 0"
    using assms(2) by (simp add: count_list_0_iff)
  moreover have "count_list (entryOf (lookupMap st) c) r
              \<le> (if bindsCommand (h r) c
                  then count_list (entryOf (chordMap st) (chords (h r) ! 0)) r else 0)"
    using assms(1) by (simp add: lookupInv_def)
  ultimately have "bindsCommand (h r) c"
    and "count_list (entryOf (chordMap st) (chords (h r) ! 0)) r \<noteq> 0"
    by (auto split: if_splits)
  then show ?thesis by (simp add: count_list_0_iff)
qed

lemma passesThrough_survives:
  "passesThrough (h r) \<Longrightarrow> r \<in> set (handleRemovals ops h rules) \<longleftrightarrow> r \<in> set rules"
proof -
  assume p: "passesThrough (h r)"
  have "r \<in> set (filter (\<lambda>r. passesThrough (h r)) (handleRemovals ops h rules))
          \<longleftrightarrow> r \<in> set (filter (\<lambda>r. passesThrough (h r)) rules)"
    by (simp only: handleRemovals_passesThrough)
  with p show ?thesis by simp
qed

text \<open>
  Claim C7. The rules with no command, with more than one command or with an empty command
  id are the same in the output of \<open>handleRemovals\<close> as in its input, in number and order,
  whether or not removal directives are present. No rule of the output is a removal
  directive, and so none is in the merged list, in a chord entry or in a lookup array of a
  constructed resolver.
\<close>

theorem removal_pass_edge_rules:
  "filter (\<lambda>r. passesThrough (h r)) (handleRemovals ops h rules)
     = filter (\<lambda>r. passesThrough (h r)) rules
   \<and> (\<forall>r\<in>set (handleRemovals ops h rules). \<not> isRemovalRule (h r))
   \<and> (\<forall>r\<in>set (keybindings (KeybindingResolver ops h dk ov)). \<not> isRemovalRule (h r))
   \<and> (\<forall>K cs. map_of (chordMap (KeybindingResolver ops h dk ov)) K = Some cs
         \<longrightarrow> (\<forall>r\<in>set cs. \<not> isRemovalRule (h r)))
   \<and> (\<forall>c arr. map_of (lookupMap (KeybindingResolver ops h dk ov)) c = Some arr
         \<longrightarrow> (\<forall>r\<in>set arr. \<not> isRemovalRule (h r)))"
proof -
  let ?R = "KeybindingResolver ops h dk ov"
  have 1: "\<not> isRemovalRule (h r)" if "r \<in> set (handleRemovals ops h rules)" for r rules
    using that by (rule handleRemovals_no_removal)
  have 2: "\<not> isRemovalRule (h r)" if "r \<in> set (entryOf (chordMap ?R) K)" for r K
    using that 1 [of r "dk @ ov"] by (simp add: resolver_entry)
  have 3: "\<not> isRemovalRule (h r)" if "map_of (chordMap ?R) K = Some cs" "r \<in> set cs" for r K cs
    using that 2 [of r K] by (simp add: entryOf_def)
  have 4: "\<not> isRemovalRule (h r)" if "map_of (lookupMap ?R) c = Some arr" "r \<in> set arr"
    for r c arr
  proof -
    have "r \<in> set (entryOf (lookupMap ?R) c)" using that by (simp add: entryOf_def)
    with resolver_inv [of h ops dk ov]
    have "r \<in> set (entryOf (chordMap ?R) (chords (h r) ! 0))"
      by (blast dest: lookup_entries)
    then show ?thesis by (rule 2)
  qed
  have 5: "\<not> isRemovalRule (h r)" if "r \<in> set (keybindings ?R)" for r
    using that 1 [of r "dk @ ov"] by (simp add: resolver_keybindings)
  from 1 3 4 5 handleRemovals_passesThrough [of h ops rules] show ?thesis by blast
qed

text \<open>
  On \<open>removalStore\<close>: the rule without command (3), the rule with two commands (4) and the
  rule with the empty command (5) pass the removal pass although a directive is present, the
  directive (2) is dropped, and neither index of the resolver holds it.
\<close>

theorem removal_pass_edge_rules_witness:
  "isRemovalRule (removalStore 2)
   \<and> filter (\<lambda>r. passesThrough (removalStore r)) [0, 1, 2, 3, 4, 5] = [3, 4, 5]
   \<and> filter (\<lambda>r. passesThrough (removalStore r))
        (handleRemovals sampleOps removalStore [0, 1, 2, 3, 4, 5]) = [3, 4, 5]
   \<and> 2 \<notin> set (handleRemovals sampleOps removalStore [0, 1, 2, 3, 4, 5])
   \<and> 2 \<notin> set (keybindings (KeybindingResolver sampleOps removalStore [0, 3, 4, 5] [1, 2]))
   \<and> chordMap (KeybindingResolver sampleOps removalStore [0, 3, 4, 5] [1, 2])
       = [(''b'', [3]), (''a'', [4, 5, 1])]
   \<and> lookupMap (KeybindingResolver sampleOps removalStore [0, 3, 4, 5] [1, 2])
       = [([], []), (''x'', [1])]"
proof -
  have a: "isRemovalRule (removalStore 2)" by code_simp
  have b: "filter (\<lambda>r. passesThrough (removalStore r)) [0, 1, 2, 3, 4, 5] = [3, 4, 5]"
    by code_simp
  have c: "chordMap (KeybindingResolver sampleOps removalStore [0, 3, 4, 5] [1, 2])
       = [(''b'', [3]), (''a'', [4, 5, 1])]" by code_simp
  have d: "lookupMap (KeybindingResolver sampleOps removalStore [0, 3, 4, 5] [1, 2])
       = [([], []), (''x'', [1])]" by code_simp
  note t = removal_pass_edge_rules
             [of removalStore sampleOps "[0, 1, 2, 3, 4, 5]" "[0, 3, 4, 5]" "[1, 2]"]
  from t b have 1: "filter (\<lambda>r. passesThrough (removalStore r))
        (handleRemovals sampleOps removalStore [0, 1, 2, 3, 4, 5]) = [3, 4, 5]" by simp
  from t a have 2: "2 \<notin> set (handleRemovals sampleOps removalStore [0, 1, 2, 3, 4, 5])"
    by blast
  from t a have 3:
    "2 \<notin> set (keybindings (KeybindingResolver sampleOps removalStore [0, 3, 4, 5] [1, 2]))"
    by blast
  from a b c d 1 2 3 show ?thesis by simp
qed

text \<open>
  Claim C10. A rule of the input lists with at least one chord, no command and a predicate
  that is not the constant false is in the chord entry of its first chord: the removal pass
  keeps it, and the chord entry of \<open>K\<close> holds every rule of the merged list that has chords, is
  not constant false and has first chord \<open>K\<close>. When such a rule has a single chord, its
  predicate holds and no later rule of its chord is satisfied, \<open>resolve\<close> returns a result that
  does not enter a chord and has an empty command list.
\<close>

theorem unbound_rule_is_indexed:
  assumes "r \<in> set (dk @ ov)" "chords (h r) \<noteq> []" "commands (h r) = []"
    "\<not> whenIsFalse ops (when_expr (h r))"
  shows "r \<in> set (entryOf (chordMap (KeybindingResolver ops h dk ov)) (chords (h r) ! 0))
       \<and> (\<forall>K. entryOf (chordMap (KeybindingResolver ops h dk ov)) K
                = filter (indexedAt ops h K) (handleRemovals ops h (dk @ ov)))
       \<and> (handleRemovals ops h (dk @ ov) = pre @ r # post \<and> length (chords (h r)) = 1
            \<and> contextMatchesRules ops ctx (when_expr (h r))
            \<and> (\<forall>r'\<in>set post. indexedAt ops h (chords (h r) ! 0) r'
                  \<longrightarrow> \<not> contextMatchesRules ops ctx (when_expr (h r')))
          \<longrightarrow> resolve ops h (KeybindingResolver ops h dk ov) ctx None (chords (h r) ! 0)
                = Some \<lparr>enterMultiChord = False, leaveMultiChord = False, commands_r = [],
                        bubble_r = bubble (h r)\<rparr>)"
proof -
  let ?R = "KeybindingResolver ops h dk ov"
  let ?K = "chords (h r) ! 0"
  let ?P = "\<lambda>k. contextMatchesRules ops ctx (when_expr (h k))"
  let ?F = "filter (indexedAt ops h ?K)"
  have pt: "passesThrough (h r)" using assms(3) by (simp add: passesThrough_def)
  have ix: "indexedAt ops h ?K r" using assms(2,4) by (simp add: indexedAt_def)
  have "r \<in> set (handleRemovals ops h (dk @ ov))"
    using assms(1) pt by (simp only: passesThrough_survives)
  with ix have 1: "r \<in> set (entryOf (chordMap ?R) ?K)"
    by (simp add: resolver_entry)
  have 2: "entryOf (chordMap ?R) K = filter (indexedAt ops h K) (handleRemovals ops h (dk @ ov))"
    for K by (rule resolver_entry)
  have 3: "resolve ops h ?R ctx None ?K
             = Some \<lparr>enterMultiChord = False, leaveMultiChord = False, commands_r = [],
                     bubble_r = bubble (h r)\<rparr>"
    if A: "handleRemovals ops h (dk @ ov) = pre @ r # post" "length (chords (h r)) = 1"
      "contextMatchesRules ops ctx (when_expr (h r))"
      "\<forall>r'\<in>set post. indexedAt ops h ?K r' \<longrightarrow> \<not> contextMatchesRules ops ctx (when_expr (h r'))"
  proof -
    have e: "?F (handleRemovals ops h (dk @ ov)) = ?F pre @ r # ?F post"
      using A(1) ix by simp
    have c: "resolveCandidates h ?R None ?K = Some (?F pre @ r # ?F post)"
      by (simp add: resolveCandidates_def resolver_chordMap e)
    have "find ?P (rev (?F pre @ r # ?F post)) = Some r"
      using A(3,4) by (intro find_rev_last) auto
    then show ?thesis
      using A(2) assms(3) by (simp add: resolve_find c resultOf_def)
  qed
  from 1 2 3 show ?thesis by blast
qed

text \<open>
  The resolver of the single rule of \<open>unboundStore\<close>, a rule on chord \<open>a\<close> without command:
  the rule is in the chord entry of \<open>a\<close>, and \<open>resolve\<close> returns a result that enters no chord
  and has no command.
\<close>

theorem unbound_rule_is_indexed_witness:
  "commands (unboundStore 0) = [] \<and> chords (unboundStore 0) = [''a'']
   \<and> 0 \<in> set (entryOf (chordMap (KeybindingResolver sampleOps unboundStore [0] [])) ''a'')
   \<and> resolve sampleOps unboundStore (KeybindingResolver sampleOps unboundStore [0] []) []
         None ''a''
       = Some \<lparr>enterMultiChord = False, leaveMultiChord = False, commands_r = [],
               bubble_r = False\<rparr>"
proof -
  have a: "0 \<in> set ([0] @ ([]::nat list))" by simp
  have b: "chords (unboundStore 0) \<noteq> []" "commands (unboundStore 0) = []"
    "\<not> whenIsFalse sampleOps (when_expr (unboundStore 0))" by code_simp+
  have c: "chords (unboundStore 0) = [''a'']" "chords (unboundStore 0) ! 0 = ''a''"
    "bubble (unboundStore 0) = False" by code_simp+
  have d: "handleRemovals sampleOps unboundStore ([0] @ []) = [] @ 0 # []
             \<and> length (chords (unboundStore 0)) = 1
             \<and> contextMatchesRules sampleOps [] (when_expr (unboundStore 0))
             \<and> (\<forall>r'\<in>set []. indexedAt sampleOps unboundStore (chords (unboundStore 0) ! 0) r'
                   \<longrightarrow> \<not> contextMatchesRules sampleOps [] (when_expr (unboundStore r')))"
    by code_simp
  note t = unbound_rule_is_indexed
             [where h = unboundStore and r = 0 and dk = "[0]" and ov = "[]" and ops = sampleOps
                and ctx = "[]" and pre = "[]" and post = "[]", OF a b]
  from t have 1: "0 \<in> set (entryOf (chordMap (KeybindingResolver sampleOps unboundStore [0] []))
                            (chords (unboundStore 0) ! 0))" by blast
  from t d have 2: "resolve sampleOps unboundStore (KeybindingResolver sampleOps unboundStore [0] [])
                      [] None (chords (unboundStore 0) ! 0)
       = Some \<lparr>enterMultiChord = False, leaveMultiChord = False, commands_r = [],
               bubble_r = bubble (unboundStore 0)\<rparr>" by blast
  from 1 2 b c show ?thesis by simp
qed

end
